theory Spec2Isabelle
  imports Complex_Main "HOL-Library.Log_Nat"
begin

section \<open>Python values\<close>

subsection \<open>Floats\<close>

text \<open>
  A Python \<open>float\<close> is an IEEE-754 binary64 number. A finite one is modelled by the rational
  it denotes, and every arithmetic operation rounds its exact result to 53 significant bits,
  ties to even (\<open>fl\<close>). The exponent range is not bounded: overflow to infinity and the
  subnormal numbers are outside the model, as are NaN and the sign of zero. The sizes and
  ratios handled by the geometry code are far from those ranges.
\<close>

definition ilog2 :: "rat \<Rightarrow> int" where
  \<comment> \<open>the binary exponent of a positive rational: \<open>2 powi ilog2 x \<le> x < 2 powi (ilog2 x + 1)\<close>\<close>
  "ilog2 x = (let (a, b) = quotient_of x; k = bitlen a - bitlen b
              in if 2 powi k \<le> x then k else k - 1)"

definition py_round :: "rat \<Rightarrow> int" where
  \<comment> \<open>\<open>round(x)\<close> with one argument: the nearest integer, a tie going to the even one\<close>
  "py_round x = (let f = \<lfloor>x\<rfloor>; d = x - of_int f
                 in if d < 1 / 2 then f else if 1 / 2 < d then f + 1
                    else if even f then f else f + 1)"

definition fl :: "rat \<Rightarrow> rat" where
  \<comment> \<open>rounding to the nearest binary64 number\<close>
  "fl x = (if x = 0 then 0
           else let q = 2 powi (ilog2 \<bar>x\<bar> - 52) in of_int (py_round (x / q)) * q)"

definition py_float :: "int \<Rightarrow> rat" where
  \<comment> \<open>\<open>float(n)\<close>, also the implicit conversion of an int operand next to a float\<close>
  "py_float n = fl (of_int n)"

definition fmul :: "rat \<Rightarrow> rat \<Rightarrow> rat" where
  "fmul x y = fl (x * y)"


definition fdiv :: "rat \<Rightarrow> rat \<Rightarrow> rat" where
  \<comment> \<open>\<open>x / y\<close> on floats; the callers test \<open>y = 0\<close> first, where Python raises\<close>
  "fdiv x y = fl (x / y)"

definition truediv :: "int \<Rightarrow> int \<Rightarrow> rat" where
  \<comment> \<open>\<open>a / b\<close> on two ints: the correctly rounded quotient\<close>
  "truediv a b = fl (of_int a / of_int b)"

definition py_int :: "rat \<Rightarrow> int" where
  \<comment> \<open>\<open>int(x)\<close>: truncation towards zero\<close>
  "py_int x = (if 0 \<le> x then \<lfloor>x\<rfloor> else \<lceil>x\<rceil>)"

definition py_ceil :: "rat \<Rightarrow> int" where
  \<comment> \<open>\<open>math.ceil(x)\<close>\<close>
  "py_ceil x = \<lceil>x\<rceil>"

subsection \<open>Exceptions\<close>

text \<open>
  The exception classes that the processing code raises or tells apart. \<open>OSError\<close> carries its
  \<open>errno\<close>, \<open>ValueError\<close> its message, and \<open>OtherError\<close> the class name of any other exception.
  A Python string whose code points are below 256 is the list of those code points.
\<close>

datatype exc =
    UnidentifiedImageError
  | MemoryError
  | PermissionError
  | OSError "int option"
  | ValueError string
  | ZeroDivisionError
  | OtherError string

section \<open>Geometry (jobs/services.py)\<close>

text \<open>
  Of a PIL image only its size matters here. \<open>resize\<close> and \<open>crop\<close> are the library's
  \<open>Image.resize\<close> and \<open>Image.crop\<close>, reduced to the size of the result and to the errors they
  raise on a bad size or box. The source's variable \<open>top\<close> is written \<open>upper\<close>, as \<open>top\<close> is
  the greatest element of an order in HOL.
\<close>

record image =
  width :: int
  height :: int

definition resize :: "image \<Rightarrow> int \<times> int \<Rightarrow> exc + image" where
  "resize im sz =
     (if fst sz < 1 \<or> snd sz < 1 then Inl (ValueError ''height and width must be > 0'')
      else Inr \<lparr>width = fst sz, height = snd sz\<rparr>)"

definition crop :: "image \<Rightarrow> int \<times> int \<times> int \<times> int \<Rightarrow> exc + image" where
  "crop im box =
     (case box of (left, upper, right, bottom) \<Rightarrow>
        if right < left then Inl (ValueError ''Coordinate 'right' is less than 'left' '')
        else if bottom < upper then Inl (ValueError ''Coordinate 'lower' is less than 'upper' '')
        else Inr \<lparr>width = right - left, height = bottom - upper\<rparr>)"

definition NO_UPSCALE_NOTE :: string where
  "NO_UPSCALE_NOTE =
     ''Sin upscaling: el original es menor que el objetivo; se export'' @ [CHR 0xF3] @
     '' al m'' @ [CHR 0xE1] @ ''ximo posible.''"

definition cover_crop :: "image \<Rightarrow> int \<Rightarrow> int \<Rightarrow> string \<Rightarrow> exc + image \<times> string" where
  \<comment> \<open>the second half of \<open>_resize_cover\<close>: the centred crop of the scaled image\<close>
  "cover_crop resized target_width target_height note =
     (if target_width \<le> width resized \<and> target_height \<le> height resized then
        let left = py_int (truediv (width resized - target_width) 2);
            upper = py_int (truediv (height resized - target_height) 2);
            right = left + target_width;
            bottom = upper + target_height
        in (case crop resized (left, upper, right, bottom) of
              Inl e \<Rightarrow> Inl e
            | Inr out \<Rightarrow> Inr (out, note))
      else if target_height = 0 \<or> height resized = 0 then Inl ZeroDivisionError
      else
        let target_aspect = fdiv (py_float target_width) (py_float target_height);
            input_aspect = fdiv (py_float (width resized)) (py_float (height resized))
        in if \<not> target_aspect < input_aspect \<and> target_aspect = 0 then Inl ZeroDivisionError
           else
             let crop_width0 =
                   (if target_aspect < input_aspect
                    then py_round (fmul (py_float (height resized)) target_aspect)
                    else width resized);
                 crop_height0 =
                   (if target_aspect < input_aspect
                    then height resized
                    else py_round (fdiv (py_float (width resized)) target_aspect));
                 crop_width = min crop_width0 (width resized);
                 crop_height = min crop_height0 (height resized);
                 left = py_int (truediv (width resized - crop_width) 2);
                 upper = py_int (truediv (height resized - crop_height) 2);
                 right = left + crop_width;
                 bottom = upper + crop_height
             in (case crop resized (left, upper, right, bottom) of
                   Inl e \<Rightarrow> Inl e
                 | Inr out \<Rightarrow> Inr (out, note)))"

definition resize_cover :: "image \<Rightarrow> int \<Rightarrow> int \<Rightarrow> bool \<Rightarrow> exc + image \<times> string" where
  \<comment> \<open>\<open>_resize_cover(image, target_width, target_height, no_upscale)\<close>\<close>
  "resize_cover im target_width target_height no_upscale =
     (if width im = 0 \<or> height im = 0 then Inl ZeroDivisionError
      else
        let ratio0 = max (fdiv (py_float target_width) (py_float (width im)))
                         (fdiv (py_float target_height) (py_float (height im)));
            clamped = (no_upscale \<and> 1 < ratio0);
            ratio = (if clamped then 1 else ratio0);
            note = (if clamped then NO_UPSCALE_NOTE else [])
        in (case (if ratio = 1 then Inr im
                  else resize im (py_ceil (fmul (py_float (width im)) ratio),
                                  py_ceil (fmul (py_float (height im)) ratio))) of
              Inl e \<Rightarrow> Inl e
            | Inr resized \<Rightarrow> cover_crop resized target_width target_height note))"

definition result_size :: "exc + image \<times> string \<Rightarrow> (int \<times> int) option" where
  \<comment> \<open>the size of the image a resize returns, if it returns one\<close>
  "result_size r = (case r of Inl e \<Rightarrow> None | Inr (out, note) \<Rightarrow> Some (width out, height out))"





section \<open>Naming (jobs/services.py)\<close>

subsection \<open>String operations\<close>







function py_replace :: "string \<Rightarrow> string \<Rightarrow> string \<Rightarrow> string" where
  \<comment> \<open>\<open>text.replace(old, new)\<close> for a non-empty \<open>old\<close>: the occurrences are found from the
      left and do not overlap\<close>
  "py_replace old new text =
     (if text = [] then []
      else if old \<noteq> [] \<and> take (length old) text = old
      then new @ py_replace old new (drop (length old) text)
      else hd text # py_replace old new (tl text))"
  by pat_completeness auto
termination
  by (relation "measure (\<lambda>(old, new, text). length text)") auto

declare py_replace.simps [simp del]



fun py_str :: "nat \<Rightarrow> string" where
  \<comment> \<open>\<open>str(n)\<close>: the decimal digits of a natural number\<close>
  "py_str n = (if n < 10 then [char_of (48 + n)] else py_str (n div 10) @ [char_of (48 + n mod 10)])"


declare py_str.simps [simp del]

subsection \<open>Normalisation\<close>



subsection \<open>Unique names\<close>

text \<open>
  \<open>Path(name).stem\<close> and \<open>Path(name).suffix\<close> are \<open>pathlib\<close>'s; \<open>_ensure_unique_name\<close> takes
  them here as the functions \<open>stem\<close> and \<open>suffix\<close>. The set of used names is a Python set, so it
  is finite. The loop has no bound of its own: not returning is the value \<open>None\<close>.
\<close>

definition candidate_name :: "string \<Rightarrow> string \<Rightarrow> nat \<Rightarrow> string" where
  \<comment> \<open>\<open>f"{base}-{counter}{suffix}"\<close>\<close>
  "candidate_name base suffix counter = base @ ''-'' @ py_str counter @ suffix"

partial_function (option) unique_loop :: "string \<Rightarrow> string \<Rightarrow> string set \<Rightarrow> nat \<Rightarrow> string option" where
  "unique_loop base suffix used_names counter =
     (if candidate_name base suffix counter \<notin> used_names
      then Some (candidate_name base suffix counter)
      else unique_loop base suffix used_names (counter + 1))"

definition ensure_unique_name ::
  "(string \<Rightarrow> string) \<Rightarrow> (string \<Rightarrow> string) \<Rightarrow> string \<Rightarrow> string set \<Rightarrow> string option" where
  \<comment> \<open>\<open>_ensure_unique_name(name, used_names)\<close>\<close>
  "ensure_unique_name stem suffix name used_names =
     (if name \<notin> used_names then Some name
      else unique_loop (stem name) (suffix name) used_names 2)"

section \<open>Presets (jobs/presets.py)\<close>

text \<open>
  A preset is a dictionary; the fields read by the code modelled here are its id, its label and
  its size. The catalogue is the list of custom presets of the database and the list of base
  presets of the JSON file.
\<close>

record preset =
  preset_id :: string
  preset_label :: string
  preset_width :: "int option"
  preset_height :: "int option"

record catalog =
  custom_presets :: "preset list"
  base_presets :: "preset list"

definition get_preset :: "catalog \<Rightarrow> string \<Rightarrow> preset option" where
  \<comment> \<open>\<open>get_preset(preset_id)\<close>: a custom preset first, then the first base preset with that id\<close>
  "get_preset c pid =
     (case find (\<lambda>p. preset_id p = pid) (custom_presets c) of
        Some p \<Rightarrow> Some p
      | None \<Rightarrow> find (\<lambda>p. preset_id p = pid) (base_presets c))"


section \<open>Jobs and their files (jobs/models.py)\<close>

text \<open>
  The rows of \<open>Job\<close> and \<open>JobFile\<close>, with the fields that job processing reads or writes. The
  fields \<open>status\<close> and \<open>error_message\<close> of a file are \<open>file_status\<close> and \<open>file_error_message\<close>
  here, and the field \<open>preset\<close> of a job is \<open>job_preset\<close>. Times are natural numbers.
\<close>

datatype job_status = PENDING | PROCESSING | PAUSED | CANCELED | DONE | FAILED

datatype file_status = FILE_PENDING | FILE_PROCESSING | FILE_DONE | FILE_FAILED

record job =
  job_preset :: string
  status :: job_status
  progress :: nat
  total_files :: nat
  processed_files :: nat
  started_at :: "nat option"
  finished_at :: "nat option"
  result_zip :: "string option"
  error_message :: string

record job_file =
  file_id :: nat
  file_status :: file_status
  file_error_message :: string
  selected_preset_id :: "string option"
  recommended_preset_id :: string
  output_name :: string
  output_size :: "nat option"
  output_width :: "int option"
  output_height :: "int option"

section \<open>Settings resolution (jobs/services.py)\<close>

definition resolve_effective_preset :: "job_file \<Rightarrow> job \<Rightarrow> catalog \<Rightarrow> preset option" where
  \<comment> \<open>\<open>_resolve_effective_preset(job_file, job, presets_data)\<close>; a string is true when it is
      neither \<open>None\<close> nor empty\<close>
  "resolve_effective_preset job_file job c =
     (let later =
            (case (if job_preset job \<noteq> [] then get_preset c (job_preset job) else None) of
               Some p \<Rightarrow> Some p
             | None \<Rightarrow>
                 if recommended_preset_id job_file \<noteq> []
                 then get_preset c (recommended_preset_id job_file)
                 else (case base_presets c of [] \<Rightarrow> None | p # ps \<Rightarrow> Some p))
      in case selected_preset_id job_file of
           None \<Rightarrow> later
         | Some s \<Rightarrow> if s \<noteq> [] then get_preset c s else later)"

definition chain_effective_preset :: "job_file \<Rightarrow> job \<Rightarrow> catalog \<Rightarrow> preset option" where
  \<comment> \<open>the precedence chain as the specification words it: the first id that is set decides\<close>
  "chain_effective_preset job_file job c =
     (if selected_preset_id job_file \<noteq> None \<and> selected_preset_id job_file \<noteq> Some []
      then get_preset c (case selected_preset_id job_file of None \<Rightarrow> [] | Some s \<Rightarrow> s)
      else if job_preset job \<noteq> [] then get_preset c (job_preset job)
      else if recommended_preset_id job_file \<noteq> []
      then get_preset c (recommended_preset_id job_file)
      else (case base_presets c of [] \<Rightarrow> None | p # ps \<Rightarrow> Some p))"

section \<open>Job processing (jobs/services.py)\<close>

subsection \<open>Error messages\<close>





subsection \<open>One file\<close>









subsection \<open>The whole job\<close>





definition progress_of :: "nat \<Rightarrow> nat \<Rightarrow> nat" where
  \<comment> \<open>\<open>int((job.processed_files / job.total_files) * 100) if job.total_files else 0\<close>\<close>
  "progress_of processed n =
     (if n \<noteq> 0 then nat (py_int (fmul (truediv (int processed) (int n)) (py_float 100)))
      else 0)"








subsection \<open>A sample run\<close>






section \<open>Properties of the float operations\<close>

text \<open>
  Rounding keeps the order, is exact on the integers below \<open>2 ^ 53\<close> and on every number with
  a 53-bit mantissa, and keeps a positive number positive.
\<close>

lemma int_bitlen_bounds:
  assumes "0 < a"
  shows "(2::rat) powi (bitlen a - 1) \<le> of_int a" and "of_int a < (2::rat) powi bitlen a"
proof -
  from bitlen_bounds[OF assms] have lo: "2 ^ nat (bitlen a - 1) \<le> a" and hi: "a < 2 ^ nat (bitlen a)"
    by auto
  have pos: "1 \<le> bitlen a" using assms bitlen_alt_def by (simp add: bitlen_alt_def)
  have "(of_int (2 ^ nat (bitlen a - 1)) :: rat) \<le> of_int a"
    using lo by (simp only: of_int_le_iff)
  then show "(2::rat) powi (bitlen a - 1) \<le> of_int a"
    using pos by (simp add: power_int_def)
  have "(of_int a :: rat) < of_int (2 ^ nat (bitlen a))"
    using hi by (simp only: of_int_less_iff)
  then show "of_int a < (2::rat) powi bitlen a"
    using pos by (simp add: power_int_def)
qed

lemma ilog2_bounds:
  assumes "0 < x"
  shows "2 powi ilog2 x \<le> x" and "x < 2 powi (ilog2 x + 1)"
proof -
  obtain a b where q: "quotient_of x = (a, b)" by (cases "quotient_of x")
  have b: "0 < b" using q by (rule quotient_of_denom_pos)
  have x: "x = of_int a / of_int b" using q by (rule quotient_of_div)
  have a: "0 < a" using assms b x by (simp add: zero_less_divide_iff)
  define k where "k = bitlen a - bitlen b"
  note ba = int_bitlen_bounds[OF a] and bb = int_bitlen_bounds[OF b]
  have bpos: "(0::rat) < of_int b" using b by simp
  have "x < 2 powi bitlen a / 2 powi (bitlen b - 1)"
    unfolding x using ba(2) bb(1) a bpos
    by (intro frac_less) auto
  also have "\<dots> = 2 powi (bitlen a - (bitlen b - 1))"
    by (rule power_int_diff[symmetric]) simp
  also have "bitlen a - (bitlen b - 1) = k + 1"
    by (simp add: k_def)
  finally have hi: "x < 2 powi (k + 1)" .
  have "2 powi (bitlen a - 1) / 2 powi bitlen b \<le> x"
    unfolding x using ba(1) bb(2) a bpos
    by (intro frac_le) auto
  moreover have "(2::rat) powi (bitlen a - 1) / 2 powi bitlen b = 2 powi (bitlen a - 1 - bitlen b)"
    by (rule power_int_diff[symmetric]) simp
  moreover have "bitlen a - 1 - bitlen b = k - 1"
    by (simp add: k_def)
  ultimately have lo: "2 powi (k - 1) \<le> x" by simp
  have e: "ilog2 x = (if 2 powi k \<le> x then k else k - 1)"
    by (simp add: ilog2_def q k_def Let_def)
  show "2 powi ilog2 x \<le> x" using lo by (simp add: e)
  show "x < 2 powi (ilog2 x + 1)" using hi by (auto simp: e)
qed

lemma pow2_less_imp_less:
  assumes "(2::rat) powi m < 2 powi n"
  shows "m < n"
proof (rule ccontr)
  assume "\<not> m < n"
  then have "n \<le> m" by simp
  then have "(2::rat) powi n \<le> 2 powi m" by (intro power_int_increasing) auto
  with assms show False by simp
qed

lemma ilog2_unique:
  assumes "2 powi e \<le> x" and "x < 2 powi (e + 1)"
  shows "ilog2 x = e"
proof -
  have "(0::rat) < 2 powi e" by simp
  then have pos: "0 < x" using assms(1) by (rule less_le_trans)
  note b = ilog2_bounds[OF pos]
  have "(2::rat) powi e < 2 powi (ilog2 x + 1)" using assms(1) b(2) by simp
  then have 1: "e < ilog2 x + 1" by (rule pow2_less_imp_less)
  have "(2::rat) powi ilog2 x < 2 powi (e + 1)" using assms(2) b(1) by simp
  then have 2: "ilog2 x < e + 1" by (rule pow2_less_imp_less)
  from 1 2 show ?thesis by simp
qed


lemma py_round_of_int [simp]: "py_round (of_int n) = n"
  by (simp add: py_round_def)


lemma py_round_mono:
  assumes "x \<le> y"
  shows "py_round x \<le> py_round y"
proof -
  have f: "\<lfloor>x\<rfloor> \<le> \<lfloor>y\<rfloor>" using assms by (rule floor_mono)
  show ?thesis
  proof (cases "\<lfloor>x\<rfloor> = \<lfloor>y\<rfloor>")
    case True
    then show ?thesis using assms unfolding py_round_def Let_def by auto
  next
    case False
    with f have "\<lfloor>x\<rfloor> + 1 \<le> \<lfloor>y\<rfloor>" by simp
    moreover have "py_round x \<le> \<lfloor>x\<rfloor> + 1" unfolding py_round_def Let_def by auto
    moreover have "\<lfloor>y\<rfloor> \<le> py_round y" unfolding py_round_def Let_def by auto
    ultimately show ?thesis by linarith
  qed
qed

lemma py_round_ge_int: "of_int n \<le> x \<Longrightarrow> n \<le> py_round x"
  using py_round_mono[of "of_int n" x] by simp

lemma py_round_le_int: "x \<le> of_int n \<Longrightarrow> py_round x \<le> n"
  using py_round_mono[of x "of_int n"] by simp


lemma pow2_52: "(2::rat) ^ 52 * 2 powi (e - 52) = 2 powi e"
proof -
  have "(2::rat) powi (52 + (e - 52)) = 2 powi 52 * 2 powi (e - 52)"
    by (rule power_int_add) simp
  moreover have "52 + (e - 52) = e" by simp
  moreover have "(2::rat) powi 52 = 2 ^ 52" by (rule power_int_numeral)
  ultimately show ?thesis by (simp only:)
qed

lemma pow2_53: "(2::rat) ^ 53 * 2 powi (e - 52) = 2 powi (e + 1)"
proof -
  have "(2::rat) powi (53 + (e - 52)) = 2 powi 53 * 2 powi (e - 52)"
    by (rule power_int_add) simp
  moreover have "53 + (e - 52) = e + 1" by simp
  moreover have "(2::rat) powi 53 = 2 ^ 53" by (rule power_int_numeral)
  ultimately show ?thesis by (simp only:)
qed

lemma fl_pos_eq:
  assumes "0 < x"
  shows "fl x = of_int (py_round (x / 2 powi (ilog2 x - 52))) * 2 powi (ilog2 x - 52)"
  using assms by (simp add: fl_def Let_def)

lemma scaled_bounds:
  assumes "0 < x"
  shows "2 ^ 52 \<le> x / 2 powi (ilog2 x - 52)" and "x / 2 powi (ilog2 x - 52) < 2 ^ 53"
proof -
  have q: "(0::rat) < 2 powi (ilog2 x - 52)" by simp
  note e1 = pow2_52[of "ilog2 x"] and e2 = pow2_53[of "ilog2 x"]
  show "2 ^ 52 \<le> x / 2 powi (ilog2 x - 52)"
    using ilog2_bounds(1)[OF assms] q by (simp only: pos_le_divide_eq e1)
  show "x / 2 powi (ilog2 x - 52) < 2 ^ 53"
    using ilog2_bounds(2)[OF assms] q by (simp only: pos_divide_less_eq e2)
qed

lemma fl_lower:
  assumes "0 < x"
  shows "2 powi ilog2 x \<le> fl x"
proof -
  have "(of_int (2 ^ 52) :: rat) \<le> x / 2 powi (ilog2 x - 52)"
    using scaled_bounds(1)[OF assms] by simp
  then have "2 ^ 52 \<le> py_round (x / 2 powi (ilog2 x - 52))"
    by (rule py_round_ge_int)
  then have "(of_int (2 ^ 52) :: rat) \<le> of_int (py_round (x / 2 powi (ilog2 x - 52)))"
    by (simp only: of_int_le_iff)
  then have "(2::rat) ^ 52 * 2 powi (ilog2 x - 52) \<le> fl x"
    unfolding fl_pos_eq[OF assms] by (intro mult_right_mono) auto
  then show ?thesis by (simp only: pow2_52)
qed

lemma fl_upper:
  assumes "0 < x"
  shows "fl x \<le> 2 powi (ilog2 x + 1)"
proof -
  have "x / 2 powi (ilog2 x - 52) \<le> (of_int (2 ^ 53) :: rat)"
    using scaled_bounds(2)[OF assms] by simp
  then have "py_round (x / 2 powi (ilog2 x - 52)) \<le> 2 ^ 53"
    by (rule py_round_le_int)
  then have "(of_int (py_round (x / 2 powi (ilog2 x - 52))) :: rat) \<le> of_int (2 ^ 53)"
    by (simp only: of_int_le_iff)
  then have "fl x \<le> (2::rat) ^ 53 * 2 powi (ilog2 x - 52)"
    unfolding fl_pos_eq[OF assms] by (intro mult_right_mono) auto
  then show ?thesis by (simp only: pow2_53)
qed

lemma fl_pos: "0 < x \<Longrightarrow> 0 < fl x"
  using fl_lower[of x] zero_less_power_int[of "2::rat" "ilog2 x"] by linarith

lemma fl_mono_pos:
  assumes "0 < x" and "x \<le> y"
  shows "fl x \<le> fl y"
proof -
  have y: "0 < y" using assms by simp
  have "(2::rat) powi ilog2 x < 2 powi (ilog2 y + 1)"
    using ilog2_bounds(1)[OF assms(1)] ilog2_bounds(2)[OF y] assms(2) by linarith
  then have "ilog2 x < ilog2 y + 1" by (rule pow2_less_imp_less)
  then consider "ilog2 x = ilog2 y" | "ilog2 x + 1 \<le> ilog2 y" by linarith
  then show ?thesis
  proof cases
    case 1
    have "x / 2 powi (ilog2 y - 52) \<le> y / 2 powi (ilog2 y - 52)"
      using assms(2) by (intro divide_right_mono) auto
    then have "py_round (x / 2 powi (ilog2 y - 52)) \<le> py_round (y / 2 powi (ilog2 y - 52))"
      by (rule py_round_mono)
    then have "(of_int (py_round (x / 2 powi (ilog2 y - 52))) :: rat)
        \<le> of_int (py_round (y / 2 powi (ilog2 y - 52)))"
      by (simp only: of_int_le_iff)
    then show ?thesis
      unfolding fl_pos_eq[OF assms(1)] fl_pos_eq[OF y] 1
      by (intro mult_right_mono) auto
  next
    case 2
    then have "(2::rat) powi (ilog2 x + 1) \<le> 2 powi ilog2 y"
      by (intro power_int_increasing) auto
    with fl_upper[OF assms(1)] fl_lower[OF y] show ?thesis by linarith
  qed
qed

lemma fl_zero [simp]: "fl 0 = 0"
  by (simp add: fl_def)

lemma fl_mono:
  assumes "0 \<le> x" and "x \<le> y"
  shows "fl x \<le> fl y"
proof (cases "x = 0")
  case True
  show ?thesis
  proof (cases "y = 0")
    case True
    with \<open>x = 0\<close> show ?thesis by simp
  next
    case False
    with assms \<open>x = 0\<close> have "0 < y" by simp
    from fl_pos[OF this] \<open>x = 0\<close> show ?thesis by simp
  qed
next
  case False
  with assms have "0 < x" by simp
  then show ?thesis using assms(2) by (rule fl_mono_pos)
qed

lemma fl_exact:
  assumes m: "0 < m" "m < 2 ^ 53" and x: "x = of_int m * 2 powi k"
  shows "fl x = x"
proof -
  have pos: "0 < x" using m(1) x by simp
  have "(of_int m :: rat) < of_int (2 ^ 53)" using m(2) by (simp only: of_int_less_iff)
  then have "x < 2 ^ 53 * 2 powi k"
    unfolding x by (intro mult_strict_right_mono) auto
  also have "(2::rat) ^ 53 * 2 powi k = 2 powi (53 + k)"
    using pow2_53[of "k + 52"] by (simp add: add.commute)
  finally have "(2::rat) powi ilog2 x < 2 powi (53 + k)"
    using ilog2_bounds(1)[OF pos] by linarith
  then have "ilog2 x < 53 + k" by (rule pow2_less_imp_less)
  then have d: "0 \<le> k - (ilog2 x - 52)" by simp
  have "x / 2 powi (ilog2 x - 52) = of_int m * (2 powi k / 2 powi (ilog2 x - 52))"
    unfolding x by simp
  also have "(2::rat) powi k / 2 powi (ilog2 x - 52) = 2 powi (k - (ilog2 x - 52))"
    by (rule power_int_diff[symmetric]) simp
  also have "\<dots> = 2 ^ nat (k - (ilog2 x - 52))"
    using d by (simp add: power_int_def)
  also have "of_int m * (2::rat) ^ nat (k - (ilog2 x - 52)) = of_int (m * 2 ^ nat (k - (ilog2 x - 52)))"
    by simp
  finally have s: "x / 2 powi (ilog2 x - 52) = of_int (m * 2 ^ nat (k - (ilog2 x - 52)))" .
  have "fl x = x / 2 powi (ilog2 x - 52) * 2 powi (ilog2 x - 52)"
    unfolding fl_pos_eq[OF pos] s py_round_of_int ..
  then show ?thesis by simp
qed

lemma fl_of_int:
  assumes "0 \<le> n" and "n < 2 ^ 53"
  shows "fl (of_int n) = of_int n"
proof (cases "n = 0")
  case True
  then show ?thesis by simp
next
  case False
  with assms have "0 < n" by simp
  then show ?thesis using assms(2) by (rule fl_exact[where k = 0]) simp
qed




lemma fl_one: "fl 1 = 1"
  using fl_of_int[of 1] by simp

lemma py_float_exact: "0 \<le> n \<Longrightarrow> n < 2 ^ 53 \<Longrightarrow> py_float n = of_int n"
  unfolding py_float_def by (rule fl_of_int)

lemma fl_le_one: "0 \<le> x \<Longrightarrow> x \<le> 1 \<Longrightarrow> fl x \<le> 1"
  using fl_mono[of x 1] by (simp add: fl_one)

lemma fl_next_one: "fl (1 + 1 / 2 ^ 52) = 1 + 1 / 2 ^ 52"
proof (rule fl_exact[where m = "2 ^ 52 + 1" and k = "- 52"])
  show "(0::int) < 2 ^ 52 + 1" by simp
  show "(2::int) ^ 52 + 1 < 2 ^ 53" by simp
  show "(1::rat) + 1 / 2 ^ 52 = of_int (2 ^ 52 + 1) * 2 powi (- 52)"
    by (simp add: power_int_minus field_simps)
qed

lemma fl_gt_one:
  assumes "1 + 1 / 2 ^ 52 \<le> x"
  shows "1 < fl x"
proof -
  have "fl (1 + 1 / 2 ^ 52) \<le> fl x"
    using assms by (intro fl_mono) auto
  then show ?thesis unfolding fl_next_one by simp
qed

lemma fl_quotient_gt_one:
  fixes a b :: int
  assumes "0 < b" and "b < a" and "b \<le> 2 ^ 52"
  shows "1 < fl (of_int a / of_int b)"
proof (rule fl_gt_one)
  have b: "(0::rat) < of_int b" using assms(1) by simp
  have "(of_int b :: rat) \<le> of_int (2 ^ 52)" using assms(3) by (simp only: of_int_le_iff)
  then have "(1::rat) / 2 ^ 52 \<le> 1 / of_int b"
    using b by (intro divide_left_mono) auto
  moreover have "(of_int (b + 1) :: rat) \<le> of_int a" using assms(2) by (simp only: of_int_le_iff) 
  then have "(of_int (b + 1) :: rat) / of_int b \<le> of_int a / of_int b"
    using b by (intro divide_right_mono) auto
  moreover have "(of_int (b + 1) :: rat) / of_int b = 1 + 1 / of_int b"
    using b by (simp add: field_simps)
  ultimately show "(1::rat) + 1 / 2 ^ 52 \<le> of_int a / of_int b" by linarith
qed

lemma fl_quotient_le_one:
  fixes a b :: int
  assumes "0 < a" and "a \<le> b"
  shows "fl (of_int a / of_int b) \<le> 1"
proof (rule fl_le_one)
  show "(0::rat) \<le> of_int a / of_int b" using assms by simp
  show "(of_int a :: rat) / of_int b \<le> 1" using assms by simp
qed

section \<open>Properties of the string operations\<close>

text \<open>
  One pass of \<open>replace('--', '-')\<close> never lengthens a string and shortens one that contains
  two dashes in a row, so the loop that collapses the dashes terminates.
\<close>

lemma py_replace_Nil [simp]: "py_replace old new [] = []"
  by (subst py_replace.simps) simp

lemma py_replace_Cons:
  "py_replace old new (c # cs) =
     (if old \<noteq> [] \<and> take (length old) (c # cs) = old
      then new @ py_replace old new (drop (length old) (c # cs))
      else c # py_replace old new cs)"
  by (subst py_replace.simps) simp

lemma py_replace_dashes_hit [simp]:
  "py_replace ''--'' ''-'' (CHR ''-'' # CHR ''-'' # cs) = CHR ''-'' # py_replace ''--'' ''-'' cs"
  by (simp add: py_replace_Cons)






































section \<open>Properties of the name normalisation\<close>







section \<open>Properties of the cover resize\<close>

text \<open>
  The crop that follows the scaling returns a square image whenever the target is square, and
  one that fits into the scaled image; scaling by a ratio below 1 keeps every side between 1
  and its length before.
\<close>

lemma small_lt: "(n::int) \<le> 2 ^ 52 \<Longrightarrow> n < 2 ^ 53"
  by simp

lemma cover_crop_square:
  assumes rw: "0 < rw" "rw \<le> 2 ^ 52" and rh: "0 < rh" "rh \<le> 2 ^ 52" and t: "0 < t" "t \<le> 2 ^ 52"
  shows "\<exists>out. cover_crop \<lparr>width = rw, height = rh\<rparr> t t note = Inr (out, note)
           \<and> width out = height out \<and> width out \<le> rw \<and> height out \<le> rh"
proof (cases "t \<le> rw \<and> t \<le> rh")
  case True
  then show ?thesis using t by (simp add: cover_crop_def crop_def Let_def)
next
  case False
  have ft: "py_float t = of_int t" using t by (intro py_float_exact small_lt) auto
  have fw: "py_float rw = of_int rw" using rw by (intro py_float_exact small_lt) auto
  have fh: "py_float rh = of_int rh" using rh by (intro py_float_exact small_lt) auto
  have ta: "fdiv (py_float t) (py_float t) = 1"
    using t by (simp add: fdiv_def ft fl_one)
  have ia: "fdiv (py_float rw) (py_float rh) = fl (of_int rw / of_int rh)"
    by (simp add: fdiv_def fw fh)
  have r1: "py_round (fmul (py_float rh) 1) = rh"
    using rh by (simp add: fmul_def fh fl_of_int small_lt)
  have r2: "py_round (fdiv (py_float rw) 1) = rw"
    using rw by (simp add: fdiv_def fw fl_of_int small_lt)
  show ?thesis
  proof (cases "1 < fl (of_int rw / of_int rh)")
    case wide: True
    have "rh < rw"
    proof (rule ccontr)
      assume "\<not> rh < rw"
      then have "rw \<le> rh" by simp
      with fl_quotient_le_one[OF rw(1) this] wide show False by simp
    qed
    then show ?thesis
      using False rh t wide by (simp add: cover_crop_def crop_def Let_def ta ia r1)
  next
    case narrow: False
    have "rw \<le> rh"
    proof (rule ccontr)
      assume "\<not> rw \<le> rh"
      then have "rh < rw" by simp
      from fl_quotient_gt_one[OF rh(1) this rh(2)] narrow show False by simp
    qed
    then show ?thesis
      using False rh rw t narrow by (simp add: cover_crop_def crop_def Let_def ta ia r2)
  qed
qed

lemma scaled_dim:
  assumes w: "0 < w" "w \<le> 2 ^ 52" and r: "0 < r" "r < 1"
  shows "0 < py_ceil (fmul (py_float w) r)" and "py_ceil (fmul (py_float w) r) \<le> w"
proof -
  have fw: "py_float w = of_int w" using w by (intro py_float_exact small_lt) auto
  have pos: "(0::rat) < of_int w * r" using w r by simp
  have le: "of_int w * r \<le> (of_int w :: rat)" using w r by simp
  have "0 < fl (of_int w * r)" using pos by (rule fl_pos)
  then show "0 < py_ceil (fmul (py_float w) r)"
    by (simp add: py_ceil_def fmul_def fw)
  have "fl (of_int w * r) \<le> fl (of_int w)"
    using pos le by (intro fl_mono) auto
  also have "fl (of_int w) = of_int w" using w by (intro fl_of_int small_lt) auto
  finally show "py_ceil (fmul (py_float w) r) \<le> w"
    by (simp add: py_ceil_def fmul_def fw ceiling_le_iff)
qed

lemma ratio_pos:
  assumes "0 < w" "w \<le> 2 ^ 52" "0 < t" "t \<le> 2 ^ 52"
  shows "0 < fdiv (py_float t) (py_float w)"
proof -
  have "py_float t = of_int t" "py_float w = of_int w"
    using assms by (auto intro!: py_float_exact small_lt)
  then show ?thesis using assms by (simp add: fdiv_def fl_pos)
qed


text \<open>
  C1, as the code has it. With no-upscale and the square target 1080 by 1080, an input of 2000 by 1000
  is not scaled (the ratio 1.08 is clamped to 1) and is cropped to the target's aspect ratio,
  which gives 1000 by 1000; an input of 800 by 400 gives 400 by 400 in the same way. Both
  results are square and neither is larger than its input on any axis.
\<close>

theorem resize_cover_scenarios:
  "result_size (resize_cover \<lparr>width = 2000, height = 1000\<rparr> 1080 1080 True) = Some (1000, 1000)
   \<and> result_size (resize_cover \<lparr>width = 800, height = 400\<rparr> 1080 1080 True) = Some (400, 400)"
  by code_simp

text \<open>
  C1, as stated, fails: the outputs are neither 1080 by 1080 nor 800 by 800, sizes that the
  shorter side of the inputs (1000 and 400 pixels) cannot reach without upscaling.
\<close>

theorem resize_cover_scenarios_counterexample:
  "result_size (resize_cover \<lparr>width = 2000, height = 1000\<rparr> 1080 1080 True) \<noteq> Some (1080, 1080)
   \<and> result_size (resize_cover \<lparr>width = 800, height = 400\<rparr> 1080 1080 True) \<noteq> Some (800, 800)"
  by code_simp

text \<open>
  C2. For every image and every square target, with sides that a float holds exactly (up to
  \<open>2 ^ 52\<close>), the cover resize with no-upscale returns an image whose width equals its height;
  and when the original is smaller than the target on both axes, the returned image is no
  larger than the original on either axis.
\<close>

theorem resize_cover_square:
  assumes w: "0 < w" "w \<le> 2 ^ 52" and h: "0 < h" "h \<le> 2 ^ 52" and t: "0 < t" "t \<le> 2 ^ 52"
  shows "\<exists>out note. resize_cover \<lparr>width = w, height = h\<rparr> t t True = Inr (out, note)
           \<and> width out = height out
           \<and> (w < t \<and> h < t \<longrightarrow> width out \<le> w \<and> height out \<le> h)"
proof -
  define ratio0 where "ratio0 = max (fdiv (py_float t) (py_float w)) (fdiv (py_float t) (py_float h))"
  have pos: "0 < ratio0"
    unfolding ratio0_def using ratio_pos[OF w t] by (simp add: less_max_iff_disj)
  show ?thesis
  proof (cases "1 < ratio0 \<or> ratio0 = 1")
    case True
    from cover_crop_square[OF w h t] obtain out where
      "cover_crop \<lparr>width = w, height = h\<rparr> t t (if 1 < ratio0 then NO_UPSCALE_NOTE else []) =
         Inr (out, if 1 < ratio0 then NO_UPSCALE_NOTE else [])"
      "width out = height out" "width out \<le> w" "height out \<le> h"
      by blast
    then show ?thesis
      using True w h by (auto simp: resize_cover_def Let_def ratio0_def[symmetric])
  next
    case False
    then have lt: "ratio0 < 1" by simp
    define rw where "rw = py_ceil (fmul (py_float w) ratio0)"
    define rh where "rh = py_ceil (fmul (py_float h) ratio0)"
    have rw: "0 < rw" "rw \<le> w" unfolding rw_def using scaled_dim[OF w pos lt] by auto
    have rh: "0 < rh" "rh \<le> h" unfolding rh_def using scaled_dim[OF h pos lt] by auto
    have rw2: "rw \<le> 2 ^ 52" using rw w by linarith
    have rh2: "rh \<le> 2 ^ 52" using rh h by linarith
    from cover_crop_square[OF rw(1) rw2 rh(1) rh2 t] obtain out where
      "cover_crop \<lparr>width = rw, height = rh\<rparr> t t [] = Inr (out, [])"
      "width out = height out" "width out \<le> rw" "height out \<le> rh"
      by blast
    then show ?thesis
      using False w h rw rh
      by (auto simp: resize_cover_def Let_def ratio0_def[symmetric] resize_def
          rw_def[symmetric] rh_def[symmetric])
  qed
qed

theorem resize_cover_square_witness:
  "(0::int) < 800 \<and> (800::int) \<le> 2 ^ 52 \<and> (0::int) < 400 \<and> (400::int) \<le> 2 ^ 52
   \<and> (0::int) < 1080 \<and> (1080::int) \<le> 2 ^ 52
   \<and> (\<exists>out note. resize_cover \<lparr>width = 800, height = 400\<rparr> 1080 1080 True = Inr (out, note)
           \<and> width out = height out
           \<and> (((800::int) < 1080 \<and> (400::int) < 1080) \<and> width out \<le> 800 \<and> height out \<le> 400))"
  using resize_cover_square[of 800 400 1080] by simp



section \<open>Properties of the manual crop\<close>






section \<open>Properties of the effective preset\<close>

text \<open>
  C5, as the code has it. The effective preset of a file is resolved by the precedence chain
  in which the job's preset id counts only when it resolves in the catalogue: the file's
  selected preset id if it is set; else the job's preset if its id is set and resolves; else
  the file's recommended preset id if it is set; else the first entry of the base catalogue.
  A job preset id that does not resolve is passed over as if it were not set.
\<close>

theorem resolve_effective_preset_chain:
  "resolve_effective_preset job_file job c =
     chain_effective_preset job_file
       (if get_preset c (job_preset job) = None then job\<lparr>job_preset := []\<rparr> else job) c"
  by (auto simp: resolve_effective_preset_def chain_effective_preset_def Let_def
      split: option.splits list.splits)

text \<open>
  C5, as stated, fails: with no selected preset and a job preset id that is set but is not in
  the catalogue, the chain as worded stops at the job's preset and resolves nothing, while
  the code goes on to the recommended preset.
\<close>

theorem resolve_effective_preset_counterexample:
  "resolve_effective_preset
     \<lparr>file_id = 1, file_status = FILE_PENDING, file_error_message = [],
      selected_preset_id = None, recommended_preset_id = ''square'', output_name = [],
      output_size = None, output_width = None, output_height = None\<rparr>
     \<lparr>job_preset = ''gone'', status = PROCESSING, progress = 0, total_files = 1,
      processed_files = 0, started_at = None, finished_at = None, result_zip = None,
      error_message = []\<rparr>
     \<lparr>custom_presets = [],
      base_presets = [\<lparr>preset_id = ''square'', preset_label = ''Square'',
                       preset_width = Some 1080, preset_height = Some 1080\<rparr>]\<rparr>
   \<noteq> chain_effective_preset
     \<lparr>file_id = 1, file_status = FILE_PENDING, file_error_message = [],
      selected_preset_id = None, recommended_preset_id = ''square'', output_name = [],
      output_size = None, output_width = None, output_height = None\<rparr>
     \<lparr>job_preset = ''gone'', status = PROCESSING, progress = 0, total_files = 1,
      processed_files = 0, started_at = None, finished_at = None, result_zip = None,
      error_message = []\<rparr>
     \<lparr>custom_presets = [],
      base_presets = [\<lparr>preset_id = ''square'', preset_label = ''Square'',
                       preset_width = Some 1080, preset_height = Some 1080\<rparr>]\<rparr>"
  by (simp add: resolve_effective_preset_def chain_effective_preset_def get_preset_def)

section \<open>Properties of the unique names\<close>

text \<open>
  \<open>str\<close> gives different numbers different digit strings, so the candidates of the loop are
  pairwise different and a finite set of used names cannot hold them all.
\<close>

lemma py_str_digit: "n < 10 \<Longrightarrow> py_str n = [char_of (48 + n)]"
  by (subst py_str.simps) simp

lemma py_str_step: "\<not> n < 10 \<Longrightarrow> py_str n = py_str (n div 10) @ [char_of (48 + n mod 10)]"
  by (subst py_str.simps) simp

lemma py_str_not_Nil: "py_str n \<noteq> []"
  by (cases "n < 10") (simp_all add: py_str_digit py_str_step)

lemma digit_char_inj:
  assumes "a < 10" and "b < 10" and "char_of (48 + a) = (char_of (48 + b) :: char)"
  shows "a = (b::nat)"
proof -
  have "of_char (char_of (48 + a) :: char) = (of_char (char_of (48 + b) :: char) :: nat)"
    using assms(3) by simp
  then show ?thesis using assms(1,2) by (simp add: of_char_of)
qed

lemma py_str_inj: "py_str m = py_str n \<Longrightarrow> m = n"
proof (induction m arbitrary: n rule: less_induct)
  case (less m)
  show ?case
  proof (cases "m < 10")
    case m: True
    show ?thesis
    proof (cases "n < 10")
      case True
      with m less.prems show ?thesis by (auto simp: py_str_digit intro: digit_char_inj)
    next
      case False
      with m less.prems py_str_not_Nil[of "n div 10"] show ?thesis
        by (simp add: py_str_digit py_str_step)
    qed
  next
    case m: False
    show ?thesis
    proof (cases "n < 10")
      case True
      with m less.prems py_str_not_Nil[of "m div 10"] show ?thesis
        by (simp add: py_str_digit py_str_step)
    next
      case False
      with m less.prems have q: "py_str (m div 10) = py_str (n div 10)"
        and d: "char_of (48 + m mod 10) = (char_of (48 + n mod 10) :: char)"
        by (simp_all add: py_str_step)
      have "m div 10 < m" using m by simp
      from less.IH[OF this q] have "m div 10 = n div 10" .
      moreover have "m mod 10 = n mod 10" using d by (intro digit_char_inj) auto
      ultimately show ?thesis by (metis div_mult_mod_eq)
    qed
  qed
qed

lemma candidate_name_inj: "candidate_name b s i = candidate_name b s j \<Longrightarrow> i = j"
  by (simp add: candidate_name_def py_str_inj)

lemma unique_loop_found:
  assumes "candidate_name b s k \<notin> used" and "c \<le> k"
    and "\<And>i. c \<le> i \<Longrightarrow> i < k \<Longrightarrow> candidate_name b s i \<in> used"
  shows "unique_loop b s used c = Some (candidate_name b s k)"
  using assms
proof (induction "k - c" arbitrary: c)
  case 0
  then have "c = k" by simp
  with "0.prems"(1) show ?case by (subst unique_loop.simps) simp
next
  case (Suc d)
  then have lt: "c < k" by simp
  with Suc.prems(3) have "candidate_name b s c \<in> used" by simp
  moreover have "unique_loop b s used (c + 1) = Some (candidate_name b s k)"
    using Suc.hyps(2) lt Suc.prems by (intro Suc.hyps(1)) auto
  ultimately show ?case by (subst unique_loop.simps) simp
qed

lemma free_candidate_exists:
  assumes "finite used"
  shows "\<exists>k\<ge>c. candidate_name b s k \<notin> used"
proof (rule ccontr)
  assume "\<not> (\<exists>k\<ge>c. candidate_name b s k \<notin> used)"
  then have "candidate_name b s ` {c..} \<subseteq> used" by auto
  then have "finite (candidate_name b s ` {c..})" using assms by (rule finite_subset)
  moreover have "inj_on (candidate_name b s) {c..}"
    by (rule inj_onI) (rule candidate_name_inj)
  ultimately have "finite {c..}" by (rule finite_imageD)
  then show False by (simp add: infinite_Ici)
qed

lemma unique_loop_returns:
  assumes "finite used"
  shows "\<exists>k\<ge>c. unique_loop b s used c = Some (candidate_name b s k)
           \<and> candidate_name b s k \<notin> used
           \<and> (\<forall>i. c \<le> i \<and> i < k \<longrightarrow> candidate_name b s i \<in> used)"
proof -
  define k where "k = (LEAST k. c \<le> k \<and> candidate_name b s k \<notin> used)"
  from free_candidate_exists[OF assms, of c b s] obtain k0 where "c \<le> k0 \<and> candidate_name b s k0 \<notin> used"
    by blast
  then have k: "c \<le> k \<and> candidate_name b s k \<notin> used"
    unfolding k_def by (rule LeastI)
  have least: "candidate_name b s i \<in> used" if "c \<le> i" "i < k" for i
    using that not_less_Least[of i "\<lambda>k. c \<le> k \<and> candidate_name b s k \<notin> used"]
    unfolding k_def by auto
  from unique_loop_found[of b s k used c] k least
  have "unique_loop b s used c = Some (candidate_name b s k)" by blast
  with k least show ?thesis by blast
qed

lemma unique_name_example:
  "ensure_unique_name (takeWhile (\<lambda>c. c \<noteq> CHR ''.'')) (dropWhile (\<lambda>c. c \<noteq> CHR ''.''))
        ''a.png'' {''a.png'', ''a-2.png''} = Some ''a-3.png''"
proof -
  have d: "py_str 2 = ''2''" "py_str 3 = ''3''" by code_simp+
  have "unique_loop ''a'' ''.png'' {''a.png'', ''a-2.png''} 3 = Some ''a-3.png''"
    by (subst unique_loop.simps) (simp add: candidate_name_def d)
  then have "unique_loop ''a'' ''.png'' {''a.png'', ''a-2.png''} 2 = Some ''a-3.png''"
    by (subst unique_loop.simps) (simp add: candidate_name_def d)
  then show ?thesis by (simp add: ensure_unique_name_def)
qed

text \<open>
  C6. For every name and every (finite) set of used names, \<open>_ensure_unique_name\<close> returns, and
  what it returns is not in the set. The result is a function of the name and the set alone:
  the name itself when it is free, otherwise the candidate with the least counter from 2 on
  that is free.
\<close>

theorem ensure_unique_name_fresh:
  assumes "finite used"
  shows "\<exists>r. ensure_unique_name stem suffix name used = Some r \<and> r \<notin> used
           \<and> (if name \<in> used
               then \<exists>k\<ge>2. r = candidate_name (stem name) (suffix name) k
                      \<and> (\<forall>i. 2 \<le> i \<and> i < k \<longrightarrow> candidate_name (stem name) (suffix name) i \<in> used)
               else r = name)"
proof (cases "name \<in> used")
  case True
  from unique_loop_returns[OF assms, of 2 "stem name" "suffix name"] True
  show ?thesis by (auto simp: ensure_unique_name_def)
next
  case False
  then show ?thesis by (simp add: ensure_unique_name_def)
qed

theorem ensure_unique_name_fresh_witness:
  "finite {''a.png'', ''a-2.png''}
   \<and> ensure_unique_name (takeWhile (\<lambda>c. c \<noteq> CHR ''.'')) (dropWhile (\<lambda>c. c \<noteq> CHR ''.''))
        ''a.png'' {''a.png'', ''a-2.png''} = Some ''a-3.png''
   \<and> ''a-3.png'' \<notin> {''a.png'', ''a-2.png''}"
  using ensure_unique_name_fresh[of "{''a.png'', ''a-2.png''}"
      "takeWhile (\<lambda>c. c \<noteq> CHR ''.'')" "dropWhile (\<lambda>c. c \<noteq> CHR ''.'')" "''a.png''"]
    unique_name_example
  by simp


section \<open>Properties of job processing\<close>

















text \<open>
  The float expression of the progress is not always the exact percentage rounded down: at 29
  files of 100 the quotient 0.29 times 100 rounds to a float just below 29. The two agree
  whenever the exact percentage is not a whole number, and differ by at most one otherwise.
\<close>

lemma progress_of_not_floor: "progress_of 29 100 = 28"
  by code_simp














end
